theory Spec2Isabelle
  imports Main "HOL-Library.Word"
begin

unbundle bit_operations_syntax

section \<open>Data model of \<open>pkg/dwarf/parseutil.go\<close>\<close>

text \<open>
  Go's \<open>[]byte\<close> is a list of 8-bit words, \<open>len\<close> is \<open>length\<close>. \<open>uint32\<close> and
  \<open>uint64\<close> are 32- and 64-bit words; \<open>dwarf.Offset\<close> of the standard library is a
  \<open>uint32\<close>, so offsets wrap around modulo \<open>2 ^ 32\<close>. A run-time panic of Go
  (an index or a slice bound out of range) is a value of type \<open>panic\<close>, and a function
  that can panic returns \<open>panic + 'a\<close>. The \<open>error\<close> values are the ones the standard
  library's readers return, and the one \<open>fmt.Errorf\<close> builds here.
\<close>

type_synonym byte = "8 word"
type_synonym uint32 = "32 word"
type_synonym uint64 = "64 word"
type_synonym Offset = "32 word"

datatype panic = IndexOutOfRange | SliceBoundsOutOfRange

datatype error = EOF | ErrUnexpectedEOF | PointerSizeNotSupported int

datatype ByteOrder = LittleEndian | BigEndian

text \<open>\<open>data[i]\<close> and \<open>data[n:]\<close> with Go's bounds checks.\<close>

definition index :: "'a list \<Rightarrow> nat \<Rightarrow> panic + 'a" where
  "index data i = (if i < length data then Inr (data ! i) else Inl IndexOutOfRange)"

definition slice_from :: "nat \<Rightarrow> 'a list \<Rightarrow> panic + 'a list" where
  "slice_from n data = (if n \<le> length data then Inr (drop n data) else Inl SliceBoundsOutOfRange)"

subsection \<open>\<open>encoding/binary\<close>: fixed-width integers in a byte order\<close>

text \<open>
  \<open>binary.LittleEndian.Uint32(b)\<close> is
  \<open>uint32(b[0]) | uint32(b[1])<<8 | uint32(b[2])<<16 | uint32(b[3])<<24\<close> after the
  bounds check \<open>_ = b[3]\<close>; the big-endian one reads the bytes in the other order.
  \<open>Uint64\<close> is alike, on 8 bytes (\<open>_ = b[7]\<close>). \<open>be_bytes\<close> folds the bytes, most
  significant first: \<open>acc<<8 | b\<close>; \<open>decode\<close> is also what \<open>binary.Read\<close> does with
  the 2, 4 or 8 bytes it has read.
\<close>

definition be_bytes :: "byte list \<Rightarrow> 'a::len word" where
  "be_bytes bs = foldl (\<lambda>acc b. push_bit 8 acc OR ucast b) 0 bs"

definition decode :: "ByteOrder \<Rightarrow> byte list \<Rightarrow> 'a::len word" where
  "decode order bs = (case order of LittleEndian \<Rightarrow> be_bytes (rev bs) | BigEndian \<Rightarrow> be_bytes bs)"

definition Uint32 :: "ByteOrder \<Rightarrow> byte list \<Rightarrow> panic + uint32" where
  "Uint32 order b = (if length b < 4 then Inl IndexOutOfRange else Inr (decode order (take 4 b)))"

definition Uint64 :: "ByteOrder \<Rightarrow> byte list \<Rightarrow> panic + uint64" where
  "Uint64 order b = (if length b < 8 then Inl IndexOutOfRange else Inr (decode order (take 8 b)))"

text \<open>
  \<open>PutUint32\<close> stores \<open>byte(v)\<close>, \<open>byte(v>>8)\<close>, \<open>byte(v>>16)\<close>, \<open>byte(v>>24)\<close> at
  \<open>b[0..3]\<close> in little-endian order and in the reverse order in big-endian order.
\<close>

definition le_bytes_of :: "nat \<Rightarrow> 'a::len word \<Rightarrow> byte list" where
  "le_bytes_of n v = map (\<lambda>i. ucast (drop_bit (8 * i) v)) [0..<n]"

definition encode :: "ByteOrder \<Rightarrow> nat \<Rightarrow> 'a::len word \<Rightarrow> byte list" where
  "encode order n v = (case order of LittleEndian \<Rightarrow> le_bytes_of n v | BigEndian \<Rightarrow> rev (le_bytes_of n v))"

section \<open>Primitive I/O: \<open>ReadString\<close>, \<open>ReadUintRaw\<close>, \<open>WriteUint\<close>\<close>

text \<open>
  An \<open>io.Reader\<close> is the list of the bytes still to be read, an \<open>io.Writer\<close> the list
  of the bytes written so far (an in-memory stream, whose writes do not fail); a function
  that reads returns the rest of the stream with its result. \<open>binary.Read\<close> into a
  \<open>*uint16\<close>, \<open>*uint32\<close> or \<open>*uint64\<close> reads 2, 4 or 8 bytes with \<open>io.ReadFull\<close>
  (\<open>io.EOF\<close> when no byte is left, \<open>io.ErrUnexpectedEOF\<close> when fewer are left than
  asked for) and decodes them in the byte order; \<open>binary.Write\<close> of such a value
  encodes it and writes the bytes.
\<close>

definition ReadFull :: "byte list \<Rightarrow> nat \<Rightarrow> (error + byte list) \<times> byte list" where
  "ReadFull reader n =
    (if n \<le> length reader then (Inr (take n reader), drop n reader)
     else if reader = [] then (Inl EOF, [])
     else (Inl ErrUnexpectedEOF, []))"

definition binary_Read :: "byte list \<Rightarrow> ByteOrder \<Rightarrow> nat \<Rightarrow> (error + 'a::len word) \<times> byte list" where
  "binary_Read reader order n =
    (case ReadFull reader n of
       (Inl err, reader') \<Rightarrow> (Inl err, reader')
     | (Inr bs, reader') \<Rightarrow> (Inr (decode order bs), reader'))"

definition binary_Write :: "byte list \<Rightarrow> ByteOrder \<Rightarrow> nat \<Rightarrow> 'a::len word \<Rightarrow> byte list" where
  "binary_Write writer order n v = writer @ encode order n v"

text \<open>
  \<open>ReadUintRaw\<close> and \<open>WriteUint\<close>: the \<open>switch ptrSize\<close> of each, with the error of
  \<open>fmt.Errorf\<close> after it. \<open>uint32(data)\<close> keeps the low 32 bits.
\<close>

definition ReadUintRaw :: "byte list \<Rightarrow> ByteOrder \<Rightarrow> int \<Rightarrow> (error + uint64) \<times> byte list" where
  "ReadUintRaw reader order ptrSize =
    (if ptrSize = 2 then
       (case binary_Read reader order 2 of
          (Inl err, reader') \<Rightarrow> (Inl err, reader')
        | (Inr (n :: 16 word), reader') \<Rightarrow> (Inr (ucast n), reader'))
     else if ptrSize = 4 then
       (case binary_Read reader order 4 of
          (Inl err, reader') \<Rightarrow> (Inl err, reader')
        | (Inr (n :: uint32), reader') \<Rightarrow> (Inr (ucast n), reader'))
     else if ptrSize = 8 then
       (case binary_Read reader order 8 of
          (Inl err, reader') \<Rightarrow> (Inl err, reader')
        | (Inr (n :: uint64), reader') \<Rightarrow> (Inr n, reader'))
     else (Inl (PointerSizeNotSupported ptrSize), reader))"

definition WriteUint :: "byte list \<Rightarrow> ByteOrder \<Rightarrow> int \<Rightarrow> uint64 \<Rightarrow> error + byte list" where
  "WriteUint writer order ptrSize data =
    (if ptrSize = 4 then Inr (binary_Write writer order 4 (ucast data :: uint32))
     else if ptrSize = 8 then Inr (binary_Write writer order 8 data)
     else Inl (PointerSizeNotSupported ptrSize))"

text \<open>
  \<open>(*bytes.Buffer).ReadString(delim)\<close> returns the bytes up to and including the first
  \<open>delim\<close>; when there is none it returns all the bytes left and \<open>io.EOF\<close>. A Go
  string is its bytes. \<open>ReadString\<close> of this package drops the last byte:
  \<open>str[:len(str)-1]\<close>.
\<close>

definition Buffer_ReadString :: "byte list \<Rightarrow> byte \<Rightarrow> (byte list \<times> error option) \<times> byte list" where
  "Buffer_ReadString buf delim =
    (if delim \<in> set buf
     then ((takeWhile (\<lambda>b. b \<noteq> delim) buf @ [delim], None), tl (dropWhile (\<lambda>b. b \<noteq> delim) buf))
     else ((buf, Some EOF), []))"

definition ReadString :: "byte list \<Rightarrow> (error + byte list) \<times> byte list" where
  "ReadString data =
    (case Buffer_ReadString data 0 of
       ((str, Some err), data') \<Rightarrow> (Inl err, data')
     | ((str, None), data') \<Rightarrow> (Inr (take (length str - 1) str), data'))"

section \<open>\<open>ReadDwarfLengthVersion\<close>\<close>

text \<open>
  The result is the tuple \<open>(length, dwarf64, version, byteOrder)\<close>. The two early
  returns give the literal values \<open>0, false, 0, binary.LittleEndian\<close>, also after
  the named result \<open>dwarf64\<close> was set. In the \<open>switch\<close>, \<open>default\<close> runs when no
  \<open>case\<close> holds and falls through into the body of \<open>case x == 0 && y == 0\<close>.
\<close>

definition ReadDwarfLengthVersion ::
  "byte list \<Rightarrow> panic + (uint64 \<times> bool \<times> byte \<times> ByteOrder)" where
  "ReadDwarfLengthVersion data =
    (if length data < 4 then Inr (0, False, 0, LittleEndian)
     else
      (case Uint32 LittleEndian data of Inl e \<Rightarrow> Inl e | Inr lengthfield \<Rightarrow>
        (let dwarf64 = (lengthfield = NOT 0);
             voff = (if dwarf64 then 12 else (4 :: nat))
         in
          (if voff + 1 \<ge> length data then Inr (0, False, 0, LittleEndian)
           else
            (case index data voff of Inl e \<Rightarrow> Inl e | Inr x \<Rightarrow>
              (case index data (voff + 1) of Inl e \<Rightarrow> Inl e | Inr y \<Rightarrow>
                (case (if x = 0 \<and> y = 0 then (0, LittleEndian)
                       else if x = 0 then (y, BigEndian)
                       else if y = 0 then (x, LittleEndian)
                       else (0, LittleEndian))
                 of (version, byteOrder) \<Rightarrow>
                  (if dwarf64
                   then
                    (case slice_from 4 data of Inl e \<Rightarrow> Inl e | Inr data4 \<Rightarrow>
                      (case Uint64 byteOrder data4 of Inl e \<Rightarrow> Inl e
                       | Inr l \<Rightarrow> Inr (l, dwarf64, version, byteOrder)))
                   else
                    (case Uint32 byteOrder data of Inl e \<Rightarrow> Inl e
                     | Inr l \<Rightarrow> Inr (ucast l, dwarf64, version, byteOrder))))))))))"

section \<open>\<open>ReadUnitVersions\<close>\<close>

text \<open>The unit-type codes of DWARF 5, the constants \<open>_DW_UT_compile\<close> to \<open>_DW_UT_split_type\<close>.\<close>

definition DW_UT_compile :: byte where "DW_UT_compile = 1"
definition DW_UT_type :: byte where "DW_UT_type = 2"
definition DW_UT_partial :: byte where "DW_UT_partial = 3"
definition DW_UT_skeleton :: byte where "DW_UT_skeleton = 4"
definition DW_UT_split_compile :: byte where "DW_UT_split_compile = 5"
definition DW_UT_split_type :: byte where "DW_UT_split_type = 6"

text \<open>
  The \<open>switch version\<close> of the loop body. \<open>headerSize\<close> is declared with
  \<open>var headerSize int\<close>, so it is 0 where no case assigns it; the inner switch has no
  default. \<open>data\<close> is the slice after the length field. The sizes are small
  non-negative values of Go's \<open>int\<close>, here natural numbers.
\<close>

definition headerSize :: "byte \<Rightarrow> nat \<Rightarrow> byte list \<Rightarrow> panic + nat" where
  "headerSize version secoffsz data =
    (if version = 2 \<or> version = 3 \<or> version = 4 then Inr (3 + secoffsz)
     else case index data 2 of Inl e \<Rightarrow> Inl e | Inr unitType \<Rightarrow>
       Inr (if unitType = DW_UT_compile \<or> unitType = DW_UT_partial then 4 + secoffsz
            else if unitType = DW_UT_skeleton \<or> unitType = DW_UT_split_compile then 4 + secoffsz + 8
            else if unitType = DW_UT_type \<or> unitType = DW_UT_split_type then 4 + secoffsz + 8 + secoffsz
            else 0))"

text \<open>
  One iteration of the loop \<open>for len(data) > 0\<close>, on the state \<open>(r, off, data)\<close>: the
  map, the offset and the rest of the section. A panic ends the whole call, so the map
  built so far is lost with it.
\<close>

definition ReadUnitVersions_step ::
  "(Offset \<rightharpoonup> byte) \<Rightarrow> Offset \<Rightarrow> byte list \<Rightarrow> panic + ((Offset \<rightharpoonup> byte) \<times> Offset \<times> byte list)" where
  "ReadUnitVersions_step r off data =
    (case ReadDwarfLengthVersion data of Inl e \<Rightarrow> Inl e | Inr (len, dwarf64, version, _) \<Rightarrow>
     (case slice_from 4 data of Inl e \<Rightarrow> Inl e | Inr data1 \<Rightarrow>
      (case (if dwarf64
             then (case slice_from 8 data1 of Inl e \<Rightarrow> Inl e
                   | Inr data2 \<Rightarrow> Inr (off + 4 + 8, 8, data2))
             else Inr (off + 4, 4, data1))
       of Inl e \<Rightarrow> Inl e | Inr (off2, secoffsz, data2) \<Rightarrow>
       (case headerSize version secoffsz data2 of Inl e \<Rightarrow> Inl e | Inr hs \<Rightarrow>
        (case slice_from (unat len) data2 of Inl e \<Rightarrow> Inl e | Inr data3 \<Rightarrow>
           Inr (r(off2 + of_nat hs \<mapsto> version), off2 + ucast len, data3))))))"

text \<open>
  The loop. An iteration that does not panic has taken at least the 4 bytes of the
  length field off \<open>data\<close>, so the loop ends.
\<close>

function ReadUnitVersions_loop ::
  "(Offset \<rightharpoonup> byte) \<Rightarrow> Offset \<Rightarrow> byte list \<Rightarrow> panic + (Offset \<rightharpoonup> byte)" where
  "ReadUnitVersions_loop r off data =
    (if length data > 0
     then (case ReadUnitVersions_step r off data of Inl e \<Rightarrow> Inl e
           | Inr (r', off', data') \<Rightarrow> ReadUnitVersions_loop r' off' data')
     else Inr r)"
  by pat_completeness auto
termination
proof (relation "measure (\<lambda>(r, off, data). length data)")
  show "wf (measure (\<lambda>(r, off, data). length data))" by simp
next
  fix r :: "Offset \<rightharpoonup> byte" and off :: Offset and data :: "byte list"
    and x2 r' y off' data'
  assume "ReadUnitVersions_step r off data = Inr x2" "(r', y) = x2" "(off', data') = y"
  then have "ReadUnitVersions_step r off data = Inr (r', off', data')" by simp
  then have "length data' + 4 \<le> length data"
    by (auto simp: ReadUnitVersions_step_def slice_from_def
        split: sum.splits prod.splits if_splits)
  then show "((r', off', data'), (r, off, data)) \<in> measure (\<lambda>(r, off, data). length data)"
    by simp
qed

declare ReadUnitVersions_loop.simps [simp del]

definition ReadUnitVersions :: "byte list \<Rightarrow> panic + (Offset \<rightharpoonup> byte)" where
  "ReadUnitVersions data = ReadUnitVersions_loop Map.empty 0 data"

text \<open>
  The inputs on which no slice and no index of the scan is out of range, said on the
  bytes (a predicate for the statements below, not a function of the package): the
  section is empty, or at least 4 bytes are left; when the version that
  \<open>ReadDwarfLengthVersion\<close> decodes is not 2, 3 or 4, at least 3 bytes are left after
  the length field (of 4 bytes, or 12 when it reports a 64-bit unit); the length it
  decodes is at most the number of bytes left after the length field; and the same holds
  for what is left after that many bytes.
\<close>

function units_in_range :: "byte list \<Rightarrow> bool" where
  "units_in_range data =
    (if data = [] then True
     else
      (case ReadDwarfLengthVersion data of
         Inl e \<Rightarrow> False
       | Inr (len, dwarf64, version, byteOrder) \<Rightarrow>
          (if 4 \<le> length data
              \<and> (version = 2 \<or> version = 3 \<or> version = 4
                   \<or> 3 \<le> length data - (if dwarf64 then 12 else 4))
              \<and> unat len \<le> length data - (if dwarf64 then 12 else 4)
           then units_in_range (drop (unat len) (drop (if dwarf64 then 12 else 4) data))
           else False)))"
  by pat_completeness auto
termination
  by (relation "measure length") (auto split: if_splits)

declare units_in_range.simps [simp del]

section \<open>Properties of \<open>ReadDwarfLengthVersion\<close>\<close>

text \<open>The guards of \<open>ReadDwarfLengthVersion\<close> keep every index in range: it never panics.\<close>

lemma ReadDwarfLengthVersion_no_panic: "\<exists>res. ReadDwarfLengthVersion data = Inr res"
  by (auto simp: ReadDwarfLengthVersion_def Uint32_def Uint64_def index_def slice_from_def
      Let_def split: prod.splits)

text \<open>
  C7. \<open>ReadDwarfLengthVersion\<close> returns the defaults (length 0, 32-bit encoding,
  version 0, little-endian) when the input has fewer than 4 bytes, and when the position
  of the version byte plus 1 is greater than or equal to the length of the buffer; the
  version byte is at offset 12 when the leading four bytes, read as a little-endian
  \<open>uint32\<close>, are \<open>0xFFFFFFFF\<close>, and at offset 4 otherwise.
\<close>

theorem ReadDwarfLengthVersion_defaults:
  assumes "length data < 4
     \<or> (Uint32 LittleEndian data = Inr 0xFFFFFFFF \<and> 12 + 1 \<ge> length data)
     \<or> (Uint32 LittleEndian data \<noteq> Inr 0xFFFFFFFF \<and> 4 + 1 \<ge> length data)"
  shows "ReadDwarfLengthVersion data = Inr (0, False, 0, LittleEndian)"
  using assms
  by (auto simp: ReadDwarfLengthVersion_def Uint32_def Let_def)

theorem ReadDwarfLengthVersion_defaults_witness:
  "ReadDwarfLengthVersion [1, 2, 3] = Inr (0, False, 0, LittleEndian)
   \<and> ReadDwarfLengthVersion [0xFF, 0xFF, 0xFF, 0xFF, 9, 0, 0, 0, 0, 0, 0, 0, 4]
       = Inr (0, False, 0, LittleEndian)
   \<and> ReadDwarfLengthVersion [7, 0, 0, 0, 4] = Inr (0, False, 0, LittleEndian)"
proof -
  have a: "length [1, 2, 3 :: byte] < 4" by simp
  have b: "Uint32 LittleEndian [0xFF, 0xFF, 0xFF, 0xFF, 9, 0, 0, 0, 0, 0, 0, 0, 4] = Inr 0xFFFFFFFF
     \<and> 12 + 1 \<ge> length [0xFF, 0xFF, 0xFF, 0xFF, 9, 0, 0, 0, 0, 0, 0, 0, 4 :: byte]"
    by (simp add: Uint32_def decode_def be_bytes_def)
  have c: "Uint32 LittleEndian [7, 0, 0, 0, 4] \<noteq> Inr 0xFFFFFFFF
     \<and> 4 + 1 \<ge> length [7, 0, 0, 0, 4 :: byte]"
    by (simp add: Uint32_def decode_def be_bytes_def)
  from a have "ReadDwarfLengthVersion [1, 2, 3] = Inr (0, False, 0, LittleEndian)"
    by (intro ReadDwarfLengthVersion_defaults) simp
  moreover from b
  have "ReadDwarfLengthVersion [0xFF, 0xFF, 0xFF, 0xFF, 9, 0, 0, 0, 0, 0, 0, 0, 4]
      = Inr (0, False, 0, LittleEndian)"
    by (intro ReadDwarfLengthVersion_defaults) blast
  moreover from c have "ReadDwarfLengthVersion [7, 0, 0, 0, 4] = Inr (0, False, 0, LittleEndian)"
    by (intro ReadDwarfLengthVersion_defaults) blast
  ultimately show ?thesis by blast
qed

text \<open>
  C2. When the two bytes \<open>x\<close>, \<open>y\<close> of the version field can be read (they are at
  \<open>voff\<close> and \<open>voff + 1\<close>, right after the length field), \<open>ReadDwarfLengthVersion\<close>
  returns version \<open>y\<close> and big-endian for \<open>x = 0\<close>, \<open>y \<noteq> 0\<close>; version \<open>x\<close> and
  little-endian for \<open>y = 0\<close>, \<open>x \<noteq> 0\<close>; version 0 and little-endian when both are 0
  and when neither is 0.
\<close>

theorem ReadDwarfLengthVersion_version_order:
  assumes "4 \<le> length data"
    and "voff = (if Uint32 LittleEndian data = Inr 0xFFFFFFFF then 12 else 4)"
    and "voff + 1 < length data"
    and "x = data ! voff" and "y = data ! (voff + 1)"
  shows "\<exists>len dwarf64 version byteOrder.
           ReadDwarfLengthVersion data = Inr (len, dwarf64, version, byteOrder)
           \<and> (x = 0 \<and> y \<noteq> 0 \<longrightarrow> version = y \<and> byteOrder = BigEndian)
           \<and> (y = 0 \<and> x \<noteq> 0 \<longrightarrow> version = x \<and> byteOrder = LittleEndian)
           \<and> (x = 0 \<and> y = 0 \<longrightarrow> version = 0 \<and> byteOrder = LittleEndian)
           \<and> (x \<noteq> 0 \<and> y \<noteq> 0 \<longrightarrow> version = 0 \<and> byteOrder = LittleEndian)"
  using assms
  by (auto simp: ReadDwarfLengthVersion_def Uint32_def Uint64_def index_def slice_from_def
      Let_def)

theorem ReadDwarfLengthVersion_version_order_witness:
  "(\<exists>len dwarf64. ReadDwarfLengthVersion [0, 0, 0, 6, 0, 3, 0, 0, 0, 0] = Inr (len, dwarf64, 3, BigEndian))
   \<and> (\<exists>len dwarf64. ReadDwarfLengthVersion [8, 0, 0, 0, 5, 0, 1, 0, 0, 0, 0, 0] = Inr (len, dwarf64, 5, LittleEndian))
   \<and> (\<exists>len dwarf64. ReadDwarfLengthVersion [2, 0, 0, 0, 0, 0] = Inr (len, dwarf64, 0, LittleEndian))
   \<and> (\<exists>len dwarf64. ReadDwarfLengthVersion [0xFF, 0xFF, 0xFF, 0xFF, 2, 0, 0, 0, 0, 0, 0, 0, 4, 1] = Inr (len, dwarf64, 0, LittleEndian))"
proof -
  have u: "Uint32 LittleEndian [0, 0, 0, 6, 0, 3, 0, 0, 0, 0] \<noteq> Inr 0xFFFFFFFF"
     "Uint32 LittleEndian [8, 0, 0, 0, 5, 0, 1, 0, 0, 0, 0, 0] \<noteq> Inr 0xFFFFFFFF"
     "Uint32 LittleEndian [2, 0, 0, 0, 0, 0] \<noteq> Inr 0xFFFFFFFF"
     "Uint32 LittleEndian [0xFF, 0xFF, 0xFF, 0xFF, 2, 0, 0, 0, 0, 0, 0, 0, 4, 1] = Inr 0xFFFFFFFF"
    by (simp_all add: Uint32_def decode_def be_bytes_def)
  show ?thesis
    using ReadDwarfLengthVersion_version_order [of "[0, 0, 0, 6, 0, 3, 0, 0, 0, 0]" 4 0 3]
      ReadDwarfLengthVersion_version_order [of "[8, 0, 0, 0, 5, 0, 1, 0, 0, 0, 0, 0]" 4 5 0]
      ReadDwarfLengthVersion_version_order [of "[2, 0, 0, 0, 0, 0]" 4 0 0]
      ReadDwarfLengthVersion_version_order [of "[0xFF, 0xFF, 0xFF, 0xFF, 2, 0, 0, 0, 0, 0, 0, 0, 4, 1]" 12 4 1]
      u
    by simp
qed

section \<open>Properties of \<open>ReadUnitVersions\<close>\<close>

lemma ReadDwarfLengthVersion_dwarf64_length:
  "ReadDwarfLengthVersion data = Inr (len, True, version, byteOrder) \<Longrightarrow> 14 \<le> length data"
  by (auto simp: ReadDwarfLengthVersion_def Uint32_def Uint64_def index_def slice_from_def
      Let_def split: if_splits prod.splits)

lemma ReadUnitVersions_step_unfold:
  assumes "ReadDwarfLengthVersion data = Inr (len, dwarf64, version, byteOrder)"
    and "4 \<le> length data"
  shows "ReadUnitVersions_step r off data =
    (case headerSize version (if dwarf64 then 8 else 4) (drop (if dwarf64 then 12 else 4) data) of
       Inl e \<Rightarrow> Inl e
     | Inr hs \<Rightarrow>
        if unat len \<le> length data - (if dwarf64 then 12 else 4)
        then Inr (r(off + (if dwarf64 then 12 else 4) + of_nat hs \<mapsto> version),
                  off + (if dwarf64 then 12 else 4) + ucast len,
                  drop (unat len) (drop (if dwarf64 then 12 else 4) data))
        else Inl SliceBoundsOutOfRange)"
proof (cases dwarf64)
  case True
  with assms have len14: "14 \<le> length data" by (simp add: ReadDwarfLengthVersion_dwarf64_length)
  then have s4: "slice_from 4 data = Inr (drop 4 data)"
    and s8: "slice_from 8 (drop 4 data) = Inr (drop 12 data)"
    by (simp_all add: slice_from_def)
  have s3: "slice_from (unat len) (drop 12 data) =
      (if unat len \<le> length data - 12 then Inr (drop (unat len) (drop 12 data))
       else Inl SliceBoundsOutOfRange)"
    by (simp add: slice_from_def)
  from True assms(1) show ?thesis
    unfolding ReadUnitVersions_step_def s4
    by (simp add: s8 s3 add.assoc split: sum.splits)
next
  case False
  from assms(2) have s4: "slice_from 4 data = Inr (drop 4 data)"
    by (simp add: slice_from_def)
  have s3: "slice_from (unat len) (drop 4 data) =
      (if unat len \<le> length data - 4 then Inr (drop (unat len) (drop 4 data))
       else Inl SliceBoundsOutOfRange)"
    by (simp add: slice_from_def)
  from False assms(1) show ?thesis
    unfolding ReadUnitVersions_step_def s4
    by (simp add: s3 split: sum.splits)
qed

lemma ReadUnitVersions_step_short:
  "length data < 4 \<Longrightarrow> ReadUnitVersions_step r off data = Inl SliceBoundsOutOfRange"
  by (simp add: ReadUnitVersions_step_def ReadDwarfLengthVersion_def slice_from_def)

lemma ReadUnitVersions_loop_Nil: "ReadUnitVersions_loop r off [] = Inr r"
  by (simp add: ReadUnitVersions_loop.simps)

lemma ReadUnitVersions_loop_Cons:
  "ReadUnitVersions_loop r off (b # bs) =
    (case ReadUnitVersions_step r off (b # bs) of Inl e \<Rightarrow> Inl e
     | Inr (r', off', data') \<Rightarrow> ReadUnitVersions_loop r' off' data')"
  by (simp add: ReadUnitVersions_loop.simps)

lemmas scan_simps = ReadUnitVersions_def ReadUnitVersions_loop_Nil ReadUnitVersions_loop_Cons
  ReadUnitVersions_step_def ReadDwarfLengthVersion_def headerSize_def Uint32_def Uint64_def
  decode_def be_bytes_def index_def slice_from_def
  DW_UT_compile_def DW_UT_type_def DW_UT_partial_def DW_UT_skeleton_def DW_UT_split_compile_def DW_UT_split_type_def


lemma ReadUnitVersions_loop_nonempty:
  "data \<noteq> [] \<Longrightarrow> ReadUnitVersions_loop r off data =
    (case ReadUnitVersions_step r off data of Inl e \<Rightarrow> Inl e
     | Inr (r', off', data') \<Rightarrow> ReadUnitVersions_loop r' off' data')"
  by (simp add: ReadUnitVersions_loop.simps)

lemma ReadUnitVersions_loop_dom:
  "ReadUnitVersions_loop r off data = Inr m \<Longrightarrow> dom r \<subseteq> dom m"
proof (induction r off data rule: ReadUnitVersions_loop.induct)
  case (1 r off data)
  show ?case
  proof (cases "data = []")
    case True
    with "1.prems" show ?thesis by (simp add: ReadUnitVersions_loop.simps)
  next
    case False
    with "1.prems" obtain r' off' data' where
      st: "ReadUnitVersions_step r off data = Inr (r', off', data')"
      and lp: "ReadUnitVersions_loop r' off' data' = Inr m"
      by (auto simp: ReadUnitVersions_loop_nonempty split: sum.splits)
    from False st lp have "dom r' \<subseteq> dom m"
      by (intro "1.IH") simp_all
    moreover from st have "dom r \<subseteq> dom r'"
      by (auto simp: ReadUnitVersions_step_def split: sum.splits prod.splits if_splits)
    ultimately show ?thesis by blast
  qed
qed

lemma ReadDwarfLengthVersion_version_length:
  "ReadDwarfLengthVersion data = Inr (len, dwarf64, version, byteOrder) \<Longrightarrow> version \<noteq> 0
    \<Longrightarrow> 6 \<le> length data"
  by (auto simp: ReadDwarfLengthVersion_def Uint32_def Uint64_def index_def slice_from_def
      Let_def split: if_splits prod.splits)

lemma units_in_range_Nil: "units_in_range []"
  by (simp add: units_in_range.simps)

lemma units_in_range_Cons:
  "units_in_range (b # bs) =
      (case ReadDwarfLengthVersion (b # bs) of
         Inl e \<Rightarrow> False
       | Inr (len, dwarf64, version, byteOrder) \<Rightarrow>
          (if 4 \<le> length (b # bs)
              \<and> (version = 2 \<or> version = 3 \<or> version = 4
                   \<or> 3 \<le> length (b # bs) - (if dwarf64 then 12 else 4))
              \<and> unat len \<le> length (b # bs) - (if dwarf64 then 12 else 4)
           then units_in_range (drop (unat len) (drop (if dwarf64 then 12 else 4) (b # bs)))
           else False))"
  by (subst units_in_range.simps) simp

lemma ReadUnitVersions_step_shrinks:
  assumes "ReadUnitVersions_step r off data = Inr (r', off', data')"
  shows "length data' + 4 \<le> length data"
  using assms
  by (auto simp: ReadUnitVersions_step_def slice_from_def
           split: sum.splits prod.splits if_splits)

lemma headerSize_Inr_iff:
  "(\<exists>hs. headerSize version S rest = Inr hs)
     \<longleftrightarrow> (version = 2 \<or> version = 3 \<or> version = 4 \<or> 3 \<le> length rest)"
  by (auto simp: headerSize_def index_def)

lemma ReadUnitVersions_loop_returns_iff:
  "(\<exists>m. ReadUnitVersions_loop r off data = Inr m) \<longleftrightarrow> units_in_range data"
proof (induction "length data" arbitrary: r off data rule: less_induct)
  case less
  show ?case
  proof (cases "data = []")
    case True
    then show ?thesis by (simp add: ReadUnitVersions_loop_Nil units_in_range_Nil)
  next
    case ne: False
    obtain len dwarf64 version byteOrder where
      rd: "ReadDwarfLengthVersion data = Inr (len, dwarf64, version, byteOrder)"
      using ReadDwarfLengthVersion_no_panic [of data] by (metis prod_cases4)
    define hdr :: nat where "hdr = (if dwarf64 then 12 else 4)"
    define S :: nat where "S = (if dwarf64 then 8 else 4)"
    define rest where "rest = drop hdr data"
    show ?thesis
    proof (cases "4 \<le> length data
        \<and> (version = 2 \<or> version = 3 \<or> version = 4 \<or> 3 \<le> length data - hdr)
        \<and> unat len \<le> length data - hdr")
      case ok: True
      then have len4: "4 \<le> length data" by simp
      from ok obtain hs where hs: "headerSize version S rest = Inr hs"
        using headerSize_Inr_iff [of version S rest] by (auto simp: rest_def)
      have st: "ReadUnitVersions_step r off data =
          Inr (r(off + of_nat hdr + of_nat hs \<mapsto> version), off + of_nat hdr + ucast len,
               drop (unat len) rest)"
        using hs ok
        by (simp add: ReadUnitVersions_step_unfold [OF rd len4] hdr_def S_def rest_def)
      from ReadUnitVersions_step_shrinks [OF st]
      have "length (drop (unat len) rest) < length data" by simp
      from less [OF this]
      have "(\<exists>m. ReadUnitVersions_loop (r(off + of_nat hdr + of_nat hs \<mapsto> version))
                (off + of_nat hdr + ucast len) (drop (unat len) rest) = Inr m)
            \<longleftrightarrow> units_in_range (drop (unat len) rest)" .
      moreover have "units_in_range data = units_in_range (drop (unat len) rest)"
        using ne rd ok by (subst units_in_range.simps) (simp add: hdr_def rest_def)
      moreover have "ReadUnitVersions_loop r off data =
          ReadUnitVersions_loop (r(off + of_nat hdr + of_nat hs \<mapsto> version))
                (off + of_nat hdr + ucast len) (drop (unat len) rest)"
        by (simp add: ReadUnitVersions_loop_nonempty [OF ne] st)
      ultimately show ?thesis by simp
    next
      case bad: False
      have u: "\<not> units_in_range data"
        using ne rd bad by (subst units_in_range.simps) (auto simp: hdr_def)
      have "\<exists>e. ReadUnitVersions_step r off data = Inl e"
      proof (cases "4 \<le> length data")
        case False
        then show ?thesis by (simp add: ReadUnitVersions_step_short)
      next
        case len4: True
        show ?thesis
        proof (cases "headerSize version S rest")
          case (Inl e)
          then show ?thesis
            by (simp add: ReadUnitVersions_step_unfold [OF rd len4] hdr_def S_def rest_def)
        next
          case (Inr hs)
          then have "version = 2 \<or> version = 3 \<or> version = 4 \<or> 3 \<le> length rest"
            using headerSize_Inr_iff [of version S rest] by blast
          with bad len4 have "\<not> unat len \<le> length data - hdr" by (auto simp: rest_def)
          with Inr show ?thesis
            by (simp add: ReadUnitVersions_step_unfold [OF rd len4] hdr_def S_def rest_def)
        qed
      qed
      then have "\<exists>e. ReadUnitVersions_loop r off data = Inl e"
        by (auto simp: ReadUnitVersions_loop_nonempty [OF ne])
      with u show ?thesis by auto
    qed
  qed
qed

lemma ReadUnitVersions_step_map:
  "ReadUnitVersions_step r off data =
    (case ReadUnitVersions_step Map.empty off data of Inl e \<Rightarrow> Inl e
     | Inr (r0, off', data') \<Rightarrow> Inr (r ++ r0, off', data'))"
  by (auto simp: ReadUnitVersions_step_def split: sum.splits prod.splits if_splits)

lemma ReadUnitVersions_loop_override:
  "ReadUnitVersions_loop r off data =
    (case ReadUnitVersions_loop Map.empty off data of Inl e \<Rightarrow> Inl e
     | Inr m0 \<Rightarrow> Inr (r ++ m0))"
proof (induction "length data" arbitrary: r off data rule: less_induct)
  case less
  show ?case
  proof (cases "data = []")
    case True
    then show ?thesis by (simp add: ReadUnitVersions_loop_Nil)
  next
    case ne: False
    show ?thesis
    proof (cases "ReadUnitVersions_step Map.empty off data")
      case (Inl e)
      then have "ReadUnitVersions_step r off data = Inl e"
        by (subst ReadUnitVersions_step_map) simp
      with Inl show ?thesis by (simp add: ReadUnitVersions_loop_nonempty [OF ne])
    next
      case (Inr res)
      then obtain r0 off' data' where
        st0: "ReadUnitVersions_step Map.empty off data = Inr (r0, off', data')"
        by (cases res) auto
      then have st: "ReadUnitVersions_step r off data = Inr (r ++ r0, off', data')"
        by (subst ReadUnitVersions_step_map) simp
      from ReadUnitVersions_step_shrinks [OF st0] have sm: "length data' < length data" by simp
      have a: "ReadUnitVersions_loop (r ++ r0) off' data' =
          (case ReadUnitVersions_loop Map.empty off' data' of Inl e \<Rightarrow> Inl e
           | Inr m0 \<Rightarrow> Inr ((r ++ r0) ++ m0))"
        by (rule less [OF sm])
      have b: "ReadUnitVersions_loop r0 off' data' =
          (case ReadUnitVersions_loop Map.empty off' data' of Inl e \<Rightarrow> Inl e
           | Inr m0 \<Rightarrow> Inr (r0 ++ m0))"
        by (rule less [OF sm])
      show ?thesis
        by (simp add: ReadUnitVersions_loop_nonempty [OF ne] st st0 a b split: sum.splits)
    qed
  qed
qed

text \<open>
  The claim C3 as stated fails on its last part. The first unit below has version 5 and
  the unit type \<open>type\<close>, hence the header size \<open>4 + 4 + 8 + 4 = 20\<close> and the pair
  \<open>24 \<mapsto> 5\<close>; its payload of 8 bytes is shorter than its header, and the second unit,
  of version 6, computes the key \<open>16 + 8 = 24\<close> too. The map returned holds \<open>24 \<mapsto> 6\<close>
  and not the pair of the first unit.
\<close>

theorem ReadUnitVersions_records_header_size_counterexample:
  "ReadDwarfLengthVersion [8, 0, 0, 0, 5, 0, 2, 0, 0, 0, 0, 0, 3, 0, 0, 0, 6, 0, 1]
      = Inr (8, False, 5, LittleEndian)
   \<and> headerSize 5 4 [5, 0, 2, 0, 0, 0, 0, 0, 3, 0, 0, 0, 6, 0, 1] = Inr 20
   \<and> ReadUnitVersions [8, 0, 0, 0, 5, 0, 2, 0, 0, 0, 0, 0, 3, 0, 0, 0, 6, 0, 1]
      = Inr [24 \<mapsto> 6]"
  by (simp add: scan_simps)

text \<open>
  C3 (as amended). With \<open>S\<close> the section-offset width (4 for a 32-bit unit, 8 for a
  64-bit unit), the header size is \<open>3 + S\<close> for versions 2, 3 and 4; for version 5 and
  later it is \<open>4 + S\<close> for the unit types compile and partial, \<open>4 + S + 8\<close> for
  skeleton and split_compile, \<open>4 + S + 8 + S\<close> for type and split_type. The iteration of
  the scanner on the unit stores the version under the key \<open>off + hdr + hs\<close>, the offset
  just past the length field plus the header size, in the map it is building, and goes on
  after the payload (it panics when the decoded payload length is larger than the rest of
  the section). A map that the scan returns is the map built up to this unit, with this
  pair, overridden by the entries of the later units: the key is in its domain, and the
  value under it is the version of this unit unless a later unit computes the same key
  (never so when the unit is the last one).
\<close>

theorem ReadUnitVersions_records_header_size:
  assumes "ReadDwarfLengthVersion data = Inr (len, dwarf64, version, byteOrder)"
    and "S = (if dwarf64 then 8 else 4)"
    and "hdr = (if dwarf64 then 12 else 4)"
    and "rest = drop hdr data"
    and "(version = 2 \<or> version = 3 \<or> version = 4) \<and> hs = 3 + S
       \<or> 5 \<le> version \<and> 3 \<le> length rest
           \<and> (rest ! 2 = DW_UT_compile \<or> rest ! 2 = DW_UT_partial) \<and> hs = 4 + S
       \<or> 5 \<le> version \<and> 3 \<le> length rest
           \<and> (rest ! 2 = DW_UT_skeleton \<or> rest ! 2 = DW_UT_split_compile) \<and> hs = 4 + S + 8
       \<or> 5 \<le> version \<and> 3 \<le> length rest
           \<and> (rest ! 2 = DW_UT_type \<or> rest ! 2 = DW_UT_split_type) \<and> hs = 4 + S + 8 + S"
  shows "headerSize version S rest = Inr hs
    \<and> ReadUnitVersions_loop r off data =
        (if unat len \<le> length rest
         then ReadUnitVersions_loop (r(off + of_nat hdr + of_nat hs \<mapsto> version))
                (off + of_nat hdr + ucast len) (drop (unat len) rest)
         else Inl SliceBoundsOutOfRange)
    \<and> (\<forall>m. ReadUnitVersions_loop r off data = Inr m \<longrightarrow>
          (\<exists>later. ReadUnitVersions_loop Map.empty (off + of_nat hdr + ucast len)
                      (drop (unat len) rest) = Inr later
                  \<and> m = r(off + of_nat hdr + of_nat hs \<mapsto> version) ++ later
                  \<and> (off + of_nat hdr + of_nat hs \<notin> dom later \<longrightarrow>
                        m (off + of_nat hdr + of_nat hs) = Some version))
          \<and> off + of_nat hdr + of_nat hs \<in> dom m)
    \<and> (unat len = length rest \<longrightarrow>
         ReadUnitVersions_loop r off data = Inr (r(off + of_nat hdr + of_nat hs \<mapsto> version)))"
proof -
  define key where "key = off + of_nat hdr + of_nat hs"
  from assms(5) have v0: "version \<noteq> 0" by auto
  with assms(1) have len6: "6 \<le> length data" by (rule ReadDwarfLengthVersion_version_length)
  then have ne: "data \<noteq> []" and len4: "4 \<le> length data" by auto
  have hsz: "headerSize version S rest = Inr hs"
    using assms(5)
    by (auto simp: headerSize_def index_def DW_UT_compile_def DW_UT_type_def DW_UT_partial_def
        DW_UT_skeleton_def DW_UT_split_compile_def DW_UT_split_type_def)
  have step: "ReadUnitVersions_step r off data =
      (if unat len \<le> length rest
       then Inr (r(key \<mapsto> version), off + of_nat hdr + ucast len, drop (unat len) rest)
       else Inl SliceBoundsOutOfRange)"
    using hsz assms(2,3,4)
    by (simp add: ReadUnitVersions_step_unfold [OF assms(1) len4] key_def)
  have loop: "ReadUnitVersions_loop r off data =
        (if unat len \<le> length rest
         then ReadUnitVersions_loop (r(key \<mapsto> version))
                (off + of_nat hdr + ucast len) (drop (unat len) rest)
         else Inl SliceBoundsOutOfRange)"
    by (simp add: ReadUnitVersions_loop_nonempty [OF ne] step)
  have final: "(\<exists>later. ReadUnitVersions_loop Map.empty (off + of_nat hdr + ucast len)
                      (drop (unat len) rest) = Inr later
                  \<and> m = r(key \<mapsto> version) ++ later
                  \<and> (key \<notin> dom later \<longrightarrow> m key = Some version))
          \<and> key \<in> dom m"
    if "ReadUnitVersions_loop r off data = Inr m" for m
  proof -
    from that loop have rec: "ReadUnitVersions_loop (r(key \<mapsto> version))
                (off + of_nat hdr + ucast len) (drop (unat len) rest) = Inr m"
      by (simp split: if_splits)
    then obtain later where
      l: "ReadUnitVersions_loop Map.empty (off + of_nat hdr + ucast len)
            (drop (unat len) rest) = Inr later"
      and m: "m = r(key \<mapsto> version) ++ later"
      by (subst (asm) ReadUnitVersions_loop_override) (auto split: sum.splits)
    from m have own: "key \<notin> dom later \<longrightarrow> m key = Some version"
      by (auto simp: map_add_def split: option.splits)
    from ReadUnitVersions_loop_dom [OF rec] have k: "key \<in> dom m" by auto
    from l m own have "\<exists>later. ReadUnitVersions_loop Map.empty (off + of_nat hdr + ucast len)
                      (drop (unat len) rest) = Inr later
                  \<and> m = r(key \<mapsto> version) ++ later
                  \<and> (key \<notin> dom later \<longrightarrow> m key = Some version)"
      by (intro exI [of _ later]) simp
    with k show ?thesis by (rule conjI [rotated])
  qed
  have last: "ReadUnitVersions_loop r off data = Inr (r(key \<mapsto> version))"
    if "unat len = length rest"
    using that by (simp add: loop ReadUnitVersions_loop_Nil)
  from final have final': "\<forall>m. ReadUnitVersions_loop r off data = Inr m \<longrightarrow>
          (\<exists>later. ReadUnitVersions_loop Map.empty (off + of_nat hdr + ucast len)
                      (drop (unat len) rest) = Inr later
                  \<and> m = r(key \<mapsto> version) ++ later
                  \<and> (key \<notin> dom later \<longrightarrow> m key = Some version))
          \<and> key \<in> dom m"
    by (intro allI impI)
  from last have last': "unat len = length rest \<longrightarrow>
      ReadUnitVersions_loop r off data = Inr (r(key \<mapsto> version))"
    by (intro impI)
  show ?thesis
    using hsz loop final' last' unfolding key_def
    by (intro conjI)
qed

theorem ReadUnitVersions_records_header_size_witness:
  "ReadUnitVersions [7, 0, 0, 0, 4, 0, 0, 0, 0, 0, 0] = Inr [11 \<mapsto> 4]
   \<and> ReadUnitVersions [0xFF, 0xFF, 0xFF, 0xFF, 0, 0, 0, 0, 0, 0, 0, 3, 0, 5, 2] = Inr [40 \<mapsto> 5]
   \<and> (\<exists>later. ReadUnitVersions_loop Map.empty 11 [7, 0, 0, 0, 3, 0, 0, 0, 0, 0, 0] = Inr later
         \<and> [11 \<mapsto> 4, 22 \<mapsto> 3] = [11 \<mapsto> 4] ++ later
         \<and> [11 \<mapsto> 4, 22 \<mapsto> (3 :: byte)] (11 :: Offset) = Some 4)"
proof -
  have rd1: "ReadDwarfLengthVersion [7, 0, 0, 0, 4, 0, 0, 0, 0, 0, 0] = Inr (7, False, 4, LittleEndian)"
    by (simp add: ReadDwarfLengthVersion_def Uint32_def decode_def be_bytes_def index_def)
  have rd2: "ReadDwarfLengthVersion [0xFF, 0xFF, 0xFF, 0xFF, 0, 0, 0, 0, 0, 0, 0, 3, 0, 5, 2]
      = Inr (3, True, 5, BigEndian)"
    by (simp add: ReadDwarfLengthVersion_def Uint32_def Uint64_def decode_def be_bytes_def
        index_def slice_from_def)
  have rd3: "ReadDwarfLengthVersion
      [7, 0, 0, 0, 4, 0, 0, 0, 0, 0, 0, 7, 0, 0, 0, 3, 0, 0, 0, 0, 0, 0]
      = Inr (7, False, 4, LittleEndian)"
    by (simp add: ReadDwarfLengthVersion_def Uint32_def decode_def be_bytes_def index_def)
  have two: "ReadUnitVersions_loop Map.empty 0
      [7, 0, 0, 0, 4, 0, 0, 0, 0, 0, 0, 7, 0, 0, 0, 3, 0, 0, 0, 0, 0, 0]
      = Inr [11 \<mapsto> 4, 22 \<mapsto> 3]"
    by (simp add: scan_simps)
  have "ReadUnitVersions_loop Map.empty 0 [7, 0, 0, 0, 4, 0, 0, 0, 0, 0, 0]
      = Inr (Map.empty(0 + of_nat 4 + of_nat 7 \<mapsto> 4))"
    by (rule ReadUnitVersions_records_header_size
          [OF rd1, of 4 4 "[4, 0, 0, 0, 0, 0, 0]" 7 Map.empty 0,
           THEN conjunct2, THEN conjunct2, THEN conjunct2, THEN mp])
       simp_all
  then have a: "ReadUnitVersions [7, 0, 0, 0, 4, 0, 0, 0, 0, 0, 0] = Inr [11 \<mapsto> 4]"
    by (simp add: ReadUnitVersions_def)
  have "ReadUnitVersions_loop Map.empty 0
        [0xFF, 0xFF, 0xFF, 0xFF, 0, 0, 0, 0, 0, 0, 0, 3, 0, 5, 2]
      = Inr (Map.empty(0 + of_nat 12 + of_nat 28 \<mapsto> 5))"
    by (rule ReadUnitVersions_records_header_size
          [OF rd2, of 8 12 "[0, 5, 2]" 28 Map.empty 0,
           THEN conjunct2, THEN conjunct2, THEN conjunct2, THEN mp])
       (simp_all add: DW_UT_type_def)
  then have b: "ReadUnitVersions [0xFF, 0xFF, 0xFF, 0xFF, 0, 0, 0, 0, 0, 0, 0, 3, 0, 5, 2]
      = Inr [40 \<mapsto> 5]"
    by (simp add: ReadUnitVersions_def)
  let ?m = "[11 \<mapsto> 4, 22 \<mapsto> 3] :: Offset \<rightharpoonup> byte"
  have "\<exists>later. ReadUnitVersions_loop Map.empty (0 + of_nat 4 + ucast (7 :: uint64))
            (drop (unat (7 :: uint64)) [4, 0, 0, 0, 0, 0, 0, 7, 0, 0, 0, 3, 0, 0, 0, 0, 0, 0])
            = Inr later
          \<and> ?m = Map.empty(0 + of_nat 4 + of_nat 7 \<mapsto> 4) ++ later
          \<and> (0 + of_nat 4 + of_nat 7 \<notin> dom later \<longrightarrow>
               ?m (0 + of_nat 4 + of_nat 7) = Some 4)"
    by (rule ReadUnitVersions_records_header_size
          [OF rd3, of 4 4 "[4, 0, 0, 0, 0, 0, 0, 7, 0, 0, 0, 3, 0, 0, 0, 0, 0, 0]" 7 Map.empty 0,
           THEN conjunct2, THEN conjunct2, THEN conjunct1, THEN spec, THEN mp, THEN conjunct1])
       (simp_all add: two)
  then obtain later where
    l1: "ReadUnitVersions_loop Map.empty 11 [7, 0, 0, 0, 3, 0, 0, 0, 0, 0, 0] = Inr later"
    and l2: "[11 \<mapsto> 4, 22 \<mapsto> 3] = [11 \<mapsto> 4] ++ later"
    by auto
  have l3: "[11 \<mapsto> 4, 22 \<mapsto> (3 :: byte)] (11 :: Offset) = Some 4" by simp
  from l1 l2 l3
  have c: "\<exists>later. ReadUnitVersions_loop Map.empty 11 [7, 0, 0, 0, 3, 0, 0, 0, 0, 0, 0] = Inr later
         \<and> [11 \<mapsto> 4, 22 \<mapsto> 3] = [11 \<mapsto> 4] ++ later
         \<and> [11 \<mapsto> 4, 22 \<mapsto> (3 :: byte)] (11 :: Offset) = Some 4"
    by (intro exI [of _ later] conjI)
  from a b c show ?thesis by blast
qed

text \<open>
  C10. A unit whose decoded version is not 2, 3 or 4 (0 and 1 included, such as the
  version 0 of the degenerate byte-order cases) takes the branch of DWARF 5 and later.
  Its header size is the one a version 5 unit has on the same bytes. When fewer than 3
  bytes remain after the length field, the read of the unit-type byte \<open>data[2]\<close> panics,
  and so does the scan. When at least 3 bytes remain, the header size \<open>hs\<close> is read off
  the table of unit types at that byte, and the iteration of \<open>ReadUnitVersions\<close> stores
  the version under the offset just past the length field plus \<open>hs\<close> and goes on after
  the payload (it panics when the decoded payload length is larger than the rest of the
  section).
\<close>

theorem ReadUnitVersions_other_versions_as_dwarf5:
  assumes "ReadDwarfLengthVersion data = Inr (len, dwarf64, version, byteOrder)"
    and "4 \<le> length data"
    and "version \<noteq> 2" and "version \<noteq> 3" and "version \<noteq> 4"
    and "S = (if dwarf64 then 8 else 4)"
    and "hdr = (if dwarf64 then 12 else 4)"
    and "rest = drop hdr data"
    and "3 \<le> length rest \<longrightarrow>
         hs = (if rest ! 2 = DW_UT_compile \<or> rest ! 2 = DW_UT_partial then 4 + S
               else if rest ! 2 = DW_UT_skeleton \<or> rest ! 2 = DW_UT_split_compile
                 then 4 + S + 8
               else if rest ! 2 = DW_UT_type \<or> rest ! 2 = DW_UT_split_type
                 then 4 + S + 8 + S
               else 0)"
  shows "headerSize version S rest = headerSize 5 S rest
    \<and> (length rest < 3 \<longrightarrow> ReadUnitVersions_loop r off data = Inl IndexOutOfRange)
    \<and> (3 \<le> length rest \<longrightarrow>
         headerSize version S rest = Inr hs
         \<and> ReadUnitVersions_loop r off data =
            (if unat len \<le> length rest
             then ReadUnitVersions_loop (r(off + of_nat hdr + of_nat hs \<mapsto> version))
                    (off + of_nat hdr + ucast len) (drop (unat len) rest)
             else Inl SliceBoundsOutOfRange)
         \<and> (unat len = length rest \<longrightarrow>
              ReadUnitVersions_loop r off data
                = Inr (r(off + of_nat hdr + of_nat hs \<mapsto> version))))"
proof -
  from assms(2) have ne: "data \<noteq> []" by auto
  have same: "headerSize version S rest = headerSize 5 S rest"
    using assms(3,4,5) by (simp add: headerSize_def)
  have short: "ReadUnitVersions_loop r off data = Inl IndexOutOfRange" if "length rest < 3"
  proof -
    from that assms(3,4,5) have "headerSize version S rest = Inl IndexOutOfRange"
      by (simp add: headerSize_def index_def)
    with assms(6,7,8) have "ReadUnitVersions_step r off data = Inl IndexOutOfRange"
      by (simp add: ReadUnitVersions_step_unfold [OF assms(1,2)])
    then show ?thesis by (simp add: ReadUnitVersions_loop_nonempty [OF ne])
  qed
  have table: "headerSize version S rest = Inr hs" if "3 \<le> length rest"
    using that assms(3,4,5,9) by (simp add: headerSize_def index_def)
  have loop: "ReadUnitVersions_loop r off data =
            (if unat len \<le> length rest
             then ReadUnitVersions_loop (r(off + of_nat hdr + of_nat hs \<mapsto> version))
                    (off + of_nat hdr + ucast len) (drop (unat len) rest)
             else Inl SliceBoundsOutOfRange)" if "3 \<le> length rest"
  proof -
    from table [OF that] assms(6,7,8) have "ReadUnitVersions_step r off data =
      (if unat len \<le> length rest
       then Inr (r(off + of_nat hdr + of_nat hs \<mapsto> version), off + of_nat hdr + ucast len,
                 drop (unat len) rest)
       else Inl SliceBoundsOutOfRange)"
      by (simp add: ReadUnitVersions_step_unfold [OF assms(1,2)])
    then show ?thesis by (simp add: ReadUnitVersions_loop_nonempty [OF ne])
  qed
  have last: "ReadUnitVersions_loop r off data
                = Inr (r(off + of_nat hdr + of_nat hs \<mapsto> version))"
    if "3 \<le> length rest" and "unat len = length rest"
    using that by (simp add: loop ReadUnitVersions_loop_Nil)
  from same short table loop last show ?thesis by (intro conjI impI)
qed

theorem ReadUnitVersions_other_versions_as_dwarf5_witness:
  "headerSize 1 4 [1, 0, 2] = headerSize 5 4 [1, 0, 2]
   \<and> headerSize 1 4 [1, 0, 2] = Inr 20
   \<and> ReadUnitVersions [3, 0, 0, 0, 1, 0, 2] = Inr [24 \<mapsto> 1]
   \<and> ReadUnitVersions [3, 0, 0, 0, 0, 0, 4] = Inr [20 \<mapsto> 0]
   \<and> ReadUnitVersions_loop Map.empty 0 [0, 0, 0, 0, 0, 0] = Inl IndexOutOfRange"
proof -
  have rd1: "ReadDwarfLengthVersion [3, 0, 0, 0, 1, 0, 2] = Inr (3, False, 1, LittleEndian)"
    by (simp add: ReadDwarfLengthVersion_def Uint32_def decode_def be_bytes_def index_def)
  have rd2: "ReadDwarfLengthVersion [0, 0, 0, 0, 0, 0] = Inr (0, False, 0, LittleEndian)"
    by (simp add: ReadDwarfLengthVersion_def Uint32_def decode_def be_bytes_def index_def)
  have rd3: "ReadDwarfLengthVersion [3, 0, 0, 0, 0, 0, 4] = Inr (3, False, 0, LittleEndian)"
    by (simp add: ReadDwarfLengthVersion_def Uint32_def decode_def be_bytes_def index_def)
  have a: "headerSize 1 4 [1, 0, 2] = headerSize 5 4 [1, 0, 2]"
    by (rule ReadUnitVersions_other_versions_as_dwarf5 [OF rd1, of 4 4 "[1, 0, 2]" 20 Map.empty 0, THEN conjunct1])
       (simp_all add: DW_UT_compile_def DW_UT_type_def DW_UT_partial_def
        DW_UT_skeleton_def DW_UT_split_compile_def DW_UT_split_type_def)
  have b: "headerSize 1 4 [1, 0, 2] = Inr 20"
    by (rule ReadUnitVersions_other_versions_as_dwarf5 [OF rd1, of 4 4 "[1, 0, 2]" 20 Map.empty 0,
          THEN conjunct2, THEN conjunct2, THEN mp, THEN conjunct1])
       (simp_all add: DW_UT_compile_def DW_UT_type_def DW_UT_partial_def
        DW_UT_skeleton_def DW_UT_split_compile_def DW_UT_split_type_def)
  have "ReadUnitVersions_loop Map.empty 0 [3, 0, 0, 0, 1, 0, 2]
      = Inr (Map.empty(0 + of_nat 4 + of_nat 20 \<mapsto> 1))"
    by (rule ReadUnitVersions_other_versions_as_dwarf5 [OF rd1, of 4 4 "[1, 0, 2]" 20 Map.empty 0,
          THEN conjunct2, THEN conjunct2, THEN mp, THEN conjunct2, THEN conjunct2, THEN mp])
       (simp_all add: DW_UT_compile_def DW_UT_type_def DW_UT_partial_def
        DW_UT_skeleton_def DW_UT_split_compile_def DW_UT_split_type_def)
  then have c: "ReadUnitVersions [3, 0, 0, 0, 1, 0, 2] = Inr [24 \<mapsto> 1]"
    by (simp add: ReadUnitVersions_def)
  have "ReadUnitVersions_loop Map.empty 0 [3, 0, 0, 0, 0, 0, 4]
      = Inr (Map.empty(0 + of_nat 4 + of_nat 16 \<mapsto> 0))"
    by (rule ReadUnitVersions_other_versions_as_dwarf5 [OF rd3, of 4 4 "[0, 0, 4]" 16 Map.empty 0,
          THEN conjunct2, THEN conjunct2, THEN mp, THEN conjunct2, THEN conjunct2, THEN mp])
       (simp_all add: DW_UT_compile_def DW_UT_type_def DW_UT_partial_def
        DW_UT_skeleton_def DW_UT_split_compile_def DW_UT_split_type_def)
  then have d: "ReadUnitVersions [3, 0, 0, 0, 0, 0, 4] = Inr [20 \<mapsto> 0]"
    by (simp add: ReadUnitVersions_def)
  have e: "ReadUnitVersions_loop Map.empty 0 [0, 0, 0, 0, 0, 0] = Inl IndexOutOfRange"
    by (rule ReadUnitVersions_other_versions_as_dwarf5 [OF rd2, of 4 4 "[0, 0]" 0 Map.empty 0,
          THEN conjunct2, THEN conjunct1, THEN mp])
       (simp_all add: DW_UT_compile_def DW_UT_type_def DW_UT_partial_def
        DW_UT_skeleton_def DW_UT_split_compile_def DW_UT_split_type_def)
  from a b c d e show ?thesis by (intro conjI)
qed

text \<open>
  C5 (as amended). For a unit of version 5 or later whose unit-type byte is none of the
  codes 1 to 6, no case of the inner switch assigns the header size, which stays 0: the
  unknown type causes no panic, the scanner stores the version under the offset just
  past the length field (header size 0, not \<open>4 + S\<close>) and goes on scanning after the
  payload; it panics only when the payload length is larger than the rest of the section.
\<close>

theorem ReadUnitVersions_unknown_unit_type:
  assumes "ReadDwarfLengthVersion data = Inr (len, dwarf64, version, byteOrder)"
    and "5 \<le> version"
    and "hdr = (if dwarf64 then 12 else 4)"
    and "rest = drop hdr data"
    and "3 \<le> length rest"
    and "rest ! 2 = 0 \<or> 6 < rest ! 2"
  shows "ReadUnitVersions_loop r off data =
        (if unat len \<le> length rest
         then ReadUnitVersions_loop (r(off + of_nat hdr \<mapsto> version))
                (off + of_nat hdr + ucast len) (drop (unat len) rest)
         else Inl SliceBoundsOutOfRange)"
proof -
  from assms(2) have v: "version \<noteq> 0" "version \<noteq> 2" "version \<noteq> 3" "version \<noteq> 4" by auto
  with assms(1) have len6: "6 \<le> length data" by (simp add: ReadDwarfLengthVersion_version_length)
  then have ne: "data \<noteq> []" and len4: "4 \<le> length data" by auto
  have "headerSize version (if dwarf64 then 8 else 4) rest = Inr 0"
    using v assms(5,6)
    by (auto simp: headerSize_def index_def DW_UT_compile_def DW_UT_type_def DW_UT_partial_def
        DW_UT_skeleton_def DW_UT_split_compile_def DW_UT_split_type_def)
  with assms(3,4) have "ReadUnitVersions_step r off data =
      (if unat len \<le> length rest
       then Inr (r(off + of_nat hdr \<mapsto> version), off + of_nat hdr + ucast len,
                 drop (unat len) rest)
       else Inl SliceBoundsOutOfRange)"
    by (simp add: ReadUnitVersions_step_unfold [OF assms(1) len4])
  then show ?thesis
    by (simp add: ReadUnitVersions_loop_nonempty [OF ne])
qed

theorem ReadUnitVersions_unknown_unit_type_witness:
  "ReadUnitVersions [3, 0, 0, 0, 5, 0, 9] = Inr [4 \<mapsto> 5]"
proof -
  have rd: "ReadDwarfLengthVersion [3, 0, 0, 0, 5, 0, 9] = Inr (3, False, 5, LittleEndian)"
    by (simp add: ReadDwarfLengthVersion_def Uint32_def decode_def be_bytes_def index_def)
  show ?thesis
    using ReadUnitVersions_unknown_unit_type [OF rd, of 4 "[5, 0, 9]" Map.empty 0]
    by (simp add: ReadUnitVersions_def ReadUnitVersions_loop_Nil)
qed

text \<open>
  The claim C5 as stated fails on a version 5 unit of unit type 0 followed by a version 4
  unit: the first entry has the key \<open>4 = 4 + 0\<close>, not \<open>12 = 4 + (4 + S)\<close>, and the
  scan did not stop, since the entry of the second unit is there.
\<close>

theorem ReadUnitVersions_unknown_unit_type_counterexample:
  "ReadUnitVersions [3, 0, 0, 0, 5, 0, 0, 2, 0, 0, 0, 4, 0] = Inr [4 \<mapsto> 5, 18 \<mapsto> 4]"
  by (simp add: scan_simps)

text \<open>
  The claim C1 as stated fails: on an input of 1, 2 or 3 bytes \<open>data[4:]\<close> panics, and
  on a payload length (here 8) larger than the rest of the section (here 3 bytes)
  \<open>data[length:]\<close> panics. No map is returned.
\<close>

theorem ReadUnitVersions_panics_counterexample:
  "ReadUnitVersions [1] = Inl SliceBoundsOutOfRange
   \<and> ReadUnitVersions [1, 2] = Inl SliceBoundsOutOfRange
   \<and> ReadUnitVersions [1, 2, 3] = Inl SliceBoundsOutOfRange
   \<and> ReadUnitVersions [8, 0, 0, 0, 4, 0, 0] = Inl SliceBoundsOutOfRange"
  by (simp add: scan_simps)

text \<open>
  C1 (as amended). \<open>ReadUnitVersions B\<close> returns a map, and raises nothing, exactly when
  every unit the scan reaches is in range (\<open>units_in_range B\<close>): at least 4 bytes are left
  at its start, at least 3 bytes are left after its length field when its decoded version
  is not 2, 3 or 4, and the payload length that \<open>ReadDwarfLengthVersion\<close> decodes (0
  when it returns the defaults) is at most the number of bytes left after the length
  field. The empty input gives the empty map. On every other input the scan panics and
  returns no map: when 1 to 3 bytes are left at the start of an iteration, in particular
  on every input of length 1, 2 or 3, with a slice bound out of range at \<open>data[4:]\<close>;
  when the decoded payload length is larger than what is left after the length field, at
  \<open>data[length:]\<close> (or before that at \<open>data[2]\<close>). The scan always ends:
  \<open>ReadUnitVersions_loop\<close> is a total function.
\<close>

theorem ReadUnitVersions_returns_iff_in_range:
  "((\<exists>m. ReadUnitVersions B = Inr m) \<longleftrightarrow> units_in_range B)
   \<and> ReadUnitVersions [] = Inr Map.empty
   \<and> (0 < length B \<and> length B < 4 \<longrightarrow> ReadUnitVersions B = Inl SliceBoundsOutOfRange)
   \<and> (0 < length data \<and> length data < 4 \<longrightarrow>
        ReadUnitVersions_loop r off data = Inl SliceBoundsOutOfRange)
   \<and> (4 \<le> length data
        \<and> ReadDwarfLengthVersion data = Inr (len, dwarf64, version, byteOrder)
        \<and> length data - (if dwarf64 then 12 else 4) < unat len \<longrightarrow>
        (\<exists>e. ReadUnitVersions_loop r off data = Inl e))"
proof -
  have iff: "(\<exists>m. ReadUnitVersions B = Inr m) \<longleftrightarrow> units_in_range B"
    by (simp add: ReadUnitVersions_def ReadUnitVersions_loop_returns_iff)
  have empty: "ReadUnitVersions [] = Inr Map.empty"
    by (simp add: ReadUnitVersions_def ReadUnitVersions_loop_Nil)
  have short: "ReadUnitVersions_loop r' off' d = Inl SliceBoundsOutOfRange"
    if "0 < length d \<and> length d < 4" for r' off' and d :: "byte list"
  proof -
    from that have "d \<noteq> []" by auto
    with that show ?thesis
      by (simp add: ReadUnitVersions_loop_nonempty ReadUnitVersions_step_short)
  qed
  have long: "\<exists>e. ReadUnitVersions_loop r off data = Inl e"
    if h: "4 \<le> length data
        \<and> ReadDwarfLengthVersion data = Inr (len, dwarf64, version, byteOrder)
        \<and> length data - (if dwarf64 then 12 else 4) < unat len"
  proof -
    from h have ne: "data \<noteq> []" and len4: "4 \<le> length data"
      and rd: "ReadDwarfLengthVersion data = Inr (len, dwarf64, version, byteOrder)" by auto
    from h have big: "\<not> unat len \<le> length data - (if dwarf64 then 12 else 4)" by simp
    have "\<exists>e. ReadUnitVersions_step r off data = Inl e"
      unfolding ReadUnitVersions_step_unfold [OF rd len4]
      using big
      by (cases "headerSize version (if dwarf64 then 8 else 4)
            (drop (if dwarf64 then 12 else 4) data)") simp_all
    then show ?thesis
      by (auto simp: ReadUnitVersions_loop_nonempty [OF ne])
  qed
  from short [of B] have shortB:
    "0 < length B \<and> length B < 4 \<longrightarrow> ReadUnitVersions B = Inl SliceBoundsOutOfRange"
    by (simp add: ReadUnitVersions_def)
  from iff empty shortB short [of data r off] long show ?thesis by blast
qed

theorem ReadUnitVersions_returns_iff_in_range_witness:
  "(\<exists>m. ReadUnitVersions [7, 0, 0, 0, 4, 0, 0, 0, 0, 0, 0, 7, 0, 0, 0, 4, 0, 0, 0, 0, 0, 0] = Inr m)
   \<and> (\<exists>m. ReadUnitVersions [0xFF, 0xFF, 0xFF, 0xFF, 2, 0, 0, 0, 4, 0] = Inr m)
   \<and> \<not> units_in_range [8, 0, 0, 0, 4, 0, 0]
   \<and> ReadUnitVersions [] = Inr Map.empty
   \<and> ReadUnitVersions [1, 2, 3] = Inl SliceBoundsOutOfRange
   \<and> (\<exists>e. ReadUnitVersions_loop Map.empty 0 [8, 0, 0, 0, 4, 0, 0] = Inl e)"
proof -
  have rd: "ReadDwarfLengthVersion [8, 0, 0, 0, 4, 0, 0] = Inr (8, False, 4, LittleEndian)"
    by (simp add: ReadDwarfLengthVersion_def Uint32_def decode_def be_bytes_def index_def)
  have in1: "units_in_range [7, 0, 0, 0, 4, 0, 0, 0, 0, 0, 0, 7, 0, 0, 0, 4, 0, 0, 0, 0, 0, 0]"
    by (simp add: units_in_range_Cons units_in_range_Nil ReadDwarfLengthVersion_def Uint32_def
        Uint64_def decode_def be_bytes_def index_def slice_from_def)
  have in2: "units_in_range [0xFF, 0xFF, 0xFF, 0xFF, 2, 0, 0, 0, 4, 0]"
    by (simp add: units_in_range_Cons units_in_range_Nil ReadDwarfLengthVersion_def Uint32_def
        Uint64_def decode_def be_bytes_def index_def slice_from_def)
  have out: "ReadUnitVersions [8, 0, 0, 0, 4, 0, 0] = Inl SliceBoundsOutOfRange"
    by (simp add: scan_simps)
  have a: "\<exists>m. ReadUnitVersions
      [7, 0, 0, 0, 4, 0, 0, 0, 0, 0, 0, 7, 0, 0, 0, 4, 0, 0, 0, 0, 0, 0] = Inr m"
    using in1 by (rule ReadUnitVersions_returns_iff_in_range [THEN conjunct1, THEN iffD2])
  have b: "\<exists>m. ReadUnitVersions [0xFF, 0xFF, 0xFF, 0xFF, 2, 0, 0, 0, 4, 0] = Inr m"
    using in2 by (rule ReadUnitVersions_returns_iff_in_range [THEN conjunct1, THEN iffD2])
  have c: "\<not> units_in_range [8, 0, 0, 0, 4, 0, 0]"
    using ReadUnitVersions_returns_iff_in_range [of "[8, 0, 0, 0, 4, 0, 0]", THEN conjunct1] out by simp
  have d: "ReadUnitVersions [] = Inr Map.empty"
    by (rule ReadUnitVersions_returns_iff_in_range [THEN conjunct2, THEN conjunct1])
  have e: "ReadUnitVersions [1, 2, 3] = Inl SliceBoundsOutOfRange"
    by (rule ReadUnitVersions_returns_iff_in_range [of "[1, 2, 3]", THEN conjunct2, THEN conjunct2, THEN conjunct1, THEN mp]) simp
  have f: "\<exists>e. ReadUnitVersions_loop Map.empty 0 [8, 0, 0, 0, 4, 0, 0] = Inl e"
    by (rule ReadUnitVersions_returns_iff_in_range [of _ "[8, 0, 0, 0, 4, 0, 0]" Map.empty 0 8 False 4 LittleEndian,
          THEN conjunct2, THEN conjunct2, THEN conjunct2, THEN conjunct2, THEN mp])
       (simp add: rd)
  from a b c d e f show ?thesis by (intro conjI)
qed

text \<open>
  The claim C4 as stated fails twice. A buffer of 10 bytes that starts with the sentinel
  \<open>FF FF FF FF\<close> is reported as a 32-bit unit with the defaults, the version field at
  offset 12 being out of reach. And on the sentinel, the 8-byte length 11, the version
  bytes \<open>04 00\<close> and 11 more bytes, the scan skips 11 bytes after the length field, finds
  2 bytes left and panics at \<open>data[4:]\<close>.
\<close>

theorem ReadDwarfLengthVersion_length_encoding_counterexample:
  "Uint32 LittleEndian [0xFF, 0xFF, 0xFF, 0xFF, 2, 0, 0, 0, 4, 0] = Inr 0xFFFFFFFF
   \<and> ReadDwarfLengthVersion [0xFF, 0xFF, 0xFF, 0xFF, 2, 0, 0, 0, 4, 0] = Inr (0, False, 0, LittleEndian)
   \<and> ReadUnitVersions [0xFF, 0xFF, 0xFF, 0xFF, 0x0B, 0, 0, 0, 0, 0, 0, 0, 4, 0,
        0, 0, 0, 0, 0, 0, 0, 0, 0, 0, 0] = Inl SliceBoundsOutOfRange"
  by (simp add: scan_simps)

text \<open>
  C4 (as amended). When the version field can be read (the buffer has more than
  \<open>voff + 1\<close> bytes, \<open>voff\<close> being 12 after the sentinel and 4 otherwise), the unit is
  reported as 64-bit exactly when its leading 4 bytes, read as a little-endian \<open>uint32\<close>,
  are \<open>0xFFFFFFFF\<close>; the payload length is then decoded from the 8 bytes after the
  sentinel in the deduced byte order, and otherwise from the leading 4 bytes in that
  byte order. On the sentinel, the 8-byte length 11, the version bytes \<open>04 00\<close> and 9
  more bytes (a payload of exactly 11 bytes), the scan returns the map \<open>{23 \<mapsto> 4}\<close>.
\<close>

theorem ReadDwarfLengthVersion_length_encoding:
  "(4 \<le> length data
      \<and> (if Uint32 LittleEndian data = Inr 0xFFFFFFFF then 12 else 4) + 1 < length data \<longrightarrow>
      (\<exists>len dwarf64 version byteOrder.
         ReadDwarfLengthVersion data = Inr (len, dwarf64, version, byteOrder)
         \<and> (dwarf64 \<longleftrightarrow> Uint32 LittleEndian data = Inr 0xFFFFFFFF)
         \<and> (if dwarf64 then Uint64 byteOrder (drop 4 data) = Inr len
             else \<exists>l. Uint32 byteOrder data = Inr l \<and> len = ucast l)))
   \<and> (length filler = 9 \<longrightarrow>
        ReadUnitVersions ([0xFF, 0xFF, 0xFF, 0xFF, 0x0B, 0, 0, 0, 0, 0, 0, 0, 4, 0] @ filler)
          = Inr [23 \<mapsto> 4])"
proof -
  have a: "\<exists>len dwarf64 version byteOrder.
           ReadDwarfLengthVersion data = Inr (len, dwarf64, version, byteOrder)
           \<and> (dwarf64 \<longleftrightarrow> Uint32 LittleEndian data = Inr 0xFFFFFFFF)
           \<and> (if dwarf64 then Uint64 byteOrder (drop 4 data) = Inr len
               else \<exists>l. Uint32 byteOrder data = Inr l \<and> len = ucast l)"
    if "4 \<le> length data"
      and "(if Uint32 LittleEndian data = Inr 0xFFFFFFFF then 12 else 4) + 1 < length data"
    using that
    by (auto simp: ReadDwarfLengthVersion_def Uint32_def Uint64_def index_def slice_from_def
      Let_def)
  have b: "ReadUnitVersions ([0xFF, 0xFF, 0xFF, 0xFF, 0x0B, 0, 0, 0, 0, 0, 0, 0, 4, 0] @ filler)
        = Inr [23 \<mapsto> 4]" if "length filler = 9"
    using that by (simp add: scan_simps)
  from a b show ?thesis by blast
qed

theorem ReadDwarfLengthVersion_length_encoding_witness:
  "(\<exists>len version byteOrder.
      ReadDwarfLengthVersion [0xFF, 0xFF, 0xFF, 0xFF, 0, 0, 0, 0, 0, 0, 0, 3, 0, 5, 2]
        = Inr (len, True, version, byteOrder)
      \<and> Uint64 byteOrder (drop 4 [0xFF, 0xFF, 0xFF, 0xFF, 0, 0, 0, 0, 0, 0, 0, 3, 0, 5, 2]) = Inr len)
   \<and> ReadUnitVersions ([0xFF, 0xFF, 0xFF, 0xFF, 0x0B, 0, 0, 0, 0, 0, 0, 0, 4, 0]
        @ [1, 2, 3, 4, 5, 6, 7, 8, 9]) = Inr [23 \<mapsto> 4]"
proof -
  have u: "Uint32 LittleEndian [0xFF, 0xFF, 0xFF, 0xFF, 0, 0, 0, 0, 0, 0, 0, 3, 0, 5, 2]
      = Inr 0xFFFFFFFF"
    by (simp add: Uint32_def decode_def be_bytes_def)
  show ?thesis
    using ReadDwarfLengthVersion_length_encoding
      [of "[0xFF, 0xFF, 0xFF, 0xFF, 0, 0, 0, 0, 0, 0, 0, 3, 0, 5, 2]"
          "[1, 2, 3, 4, 5, 6, 7, 8, 9]"] u
    by auto
qed

lemma headerSize_bound:
  assumes "headerSize version S rest = Inr hs" and "S = 4 \<or> S = 8"
  shows "hs \<le> length rest + 25"
  using assms
  by (auto simp: headerSize_def index_def split: if_splits)

lemma ReadUnitVersions_step_offsets:
  assumes "ReadUnitVersions_step r off data = Inr (r', off', data')"
    and "off = of_nat p"
  shows "\<exists>j p'. 4 \<le> j \<and> j \<le> p + length data + 25 \<and> dom r' = insert (of_nat j) (dom r)
           \<and> off' = of_nat p' \<and> p' + length data' = p + length data"
proof -
  obtain len dwarf64 version byteOrder where
    rd: "ReadDwarfLengthVersion data = Inr (len, dwarf64, version, byteOrder)"
    using ReadDwarfLengthVersion_no_panic [of data] by (metis prod_cases4)
  from assms(1) have len4: "4 \<le> length data"
    by (cases "length data < 4") (simp_all add: ReadUnitVersions_step_short)
  define hdr :: nat where "hdr = (if dwarf64 then 12 else 4)"
  define S :: nat where "S = (if dwarf64 then 8 else 4)"
  have hdr_le: "hdr \<le> length data"
    using len4 ReadDwarfLengthVersion_dwarf64_length [of data len version byteOrder] rd
    by (cases dwarf64) (auto simp: hdr_def)
  from assms(1) obtain hs where
    hs: "headerSize version S (drop hdr data) = Inr hs"
    and le: "unat len \<le> length data - hdr"
    and r': "r' = r(off + of_nat hdr + of_nat hs \<mapsto> version)"
    and off': "off' = off + of_nat hdr + ucast len"
    and data': "data' = drop (unat len) (drop hdr data)"
    unfolding ReadUnitVersions_step_unfold [OF rd len4] hdr_def S_def
    by (auto split: sum.splits if_splits)
  have "hs \<le> length (drop hdr data) + 25"
    using hs by (rule headerSize_bound) (simp add: S_def)
  with hdr_le have j2: "p + hdr + hs \<le> p + length data + 25" by simp
  have j1: "4 \<le> p + hdr + hs" by (simp add: hdr_def)
  have key: "off + of_nat hdr + of_nat hs = (of_nat (p + hdr + hs) :: Offset)"
    by (simp add: assms(2))
  have "ucast len = (of_nat (unat len) :: Offset)"
    by simp
  then have o2: "off' = of_nat (p + hdr + unat len)"
    by (simp add: off' assms(2))
  have l2: "(p + hdr + unat len) + length data' = p + length data"
    using le hdr_le by (simp add: data')
  from j1 j2 key r' o2 l2 show ?thesis
    by (intro exI [of _ "p + hdr + hs"] exI [of _ "p + hdr + unat len"]) simp
qed


lemma ReadUnitVersions_loop_keys:
  assumes "ReadUnitVersions_loop r off data = Inr m"
    and "off = of_nat p" and "p + length data = n"
    and "\<forall>k\<in>dom r. \<exists>j. 4 \<le> j \<and> j \<le> n + 25 \<and> k = of_nat j"
  shows "\<forall>k\<in>dom m. \<exists>j. 4 \<le> j \<and> j \<le> n + 25 \<and> k = of_nat j"
  using assms
proof (induction r off data arbitrary: p rule: ReadUnitVersions_loop.induct)
  case (1 r off data)
  show ?case
  proof (cases "data = []")
    case True
    with "1.prems" show ?thesis by (simp add: ReadUnitVersions_loop_Nil)
  next
    case False
    with "1.prems"(1) obtain r' off' data' where
      st: "ReadUnitVersions_step r off data = Inr (r', off', data')"
      and lp: "ReadUnitVersions_loop r' off' data' = Inr m"
      by (auto simp: ReadUnitVersions_loop_nonempty split: sum.splits)
    from ReadUnitVersions_step_offsets [OF st "1.prems"(2)] obtain j p' where
      j: "4 \<le> j" "j \<le> p + length data + 25" and d: "dom r' = insert (of_nat j) (dom r)"
      and o: "off' = of_nat p'" and l: "p' + length data' = p + length data"
      by blast
    have inv: "\<forall>k\<in>dom r'. \<exists>j. 4 \<le> j \<and> j \<le> n + 25 \<and> k = of_nat j"
      using j d "1.prems"(3,4) by auto
    from l "1.prems"(3) have n: "p' + length data' = n" by simp
    from False st lp o n inv show ?thesis
      by (intro "1.IH" [where p = p']) simp_all
  qed
qed

text \<open>
  C6 (as amended). Every key of a map that \<open>ReadUnitVersions B\<close> returns is, modulo
  \<open>2 ^ 32\<close> (the keys are \<open>uint32\<close> values), a number from 4 to \<open>|B| + 25\<close>; when
  \<open>|B| + 25 < 2 ^ 32\<close> the key itself is in that range. The bound is reached: see the
  witness.
\<close>

theorem ReadUnitVersions_key_bound:
  assumes "ReadUnitVersions B = Inr m" and "k \<in> dom m"
  shows "(\<exists>j. 4 \<le> j \<and> j \<le> length B + 25 \<and> k = of_nat j)
    \<and> (length B + 25 < 2 ^ 32 \<longrightarrow> 4 \<le> unat k \<and> unat k \<le> length B + 25)"
proof -
  from assms(1) have "ReadUnitVersions_loop Map.empty 0 B = Inr m"
    by (simp add: ReadUnitVersions_def)
  from ReadUnitVersions_loop_keys [OF this, of 0 "length B"] assms(2)
  obtain j where j: "4 \<le> j" "j \<le> length B + 25" "k = of_nat j" by auto
  have "unat k = j" if "length B + 25 < 2 ^ 32"
  proof -
    from that j(2) have "j < 2 ^ LENGTH(32)" by simp
    with j(3) show ?thesis by (simp add: unat_of_nat)
  qed
  with j show ?thesis by auto
qed

text \<open>
  The claim C6 as stated fails: a version 4 unit with a payload of 2 bytes in a section
  of 6 bytes has the key 11, and a version 4 unit whose payload is its header alone, in
  a section of 11 bytes, has the key 11 too, the length of the section.
\<close>

theorem ReadUnitVersions_key_bound_counterexample:
  "ReadUnitVersions [2, 0, 0, 0, 4, 0] = Inr [11 \<mapsto> 4]
   \<and> ReadUnitVersions [7, 0, 0, 0, 4, 0, 0, 0, 0, 0, 0] = Inr [11 \<mapsto> 4]"
  by (simp add: scan_simps)

theorem ReadUnitVersions_key_bound_witness:
  "ReadUnitVersions [0xFF, 0xFF, 0xFF, 0xFF, 3, 0, 0, 0, 0, 0, 0, 0, 5, 0, 2] = Inr [40 \<mapsto> 5]
   \<and> 4 \<le> unat (40 :: Offset) \<and> unat (40 :: Offset) \<le> length [0xFF, 0xFF, 0xFF, 0xFF, 3, 0, 0, 0, 0, 0, 0, 0, 5, 0, 2 :: byte] + 25"
proof -
  have rd: "ReadUnitVersions [0xFF, 0xFF, 0xFF, 0xFF, 3, 0, 0, 0, 0, 0, 0, 0, 5, 0, 2] = Inr [40 \<mapsto> 5]"
    by (simp add: scan_simps)
  have k: "(40 :: Offset) \<in> dom [40 \<mapsto> (5 :: byte)]" by simp
  from ReadUnitVersions_key_bound [OF rd k] rd show ?thesis by simp
qed

section \<open>Properties of the primitive I/O\<close>

lemma le_bytes_of_Suc:
  "le_bytes_of (Suc n) v = le_bytes_of n v @ [ucast (drop_bit (8 * n) v)]"
  by (simp add: le_bytes_of_def)

lemma byte_step:
  fixes acc v :: "'a::len word"
  shows "push_bit (8 * n) (push_bit 8 acc OR ucast (ucast (drop_bit (8 * n) v) :: byte))
           OR take_bit (8 * n) v
         = push_bit (8 * Suc n) acc OR take_bit (8 * Suc n) v"
proof -
  have c: "8 + 8 * n = 8 * n + 8" by simp
  show ?thesis
    by (rule bit_word_eqI) (auto simp: bit_simps c)
qed

lemma foldl_le_bytes_of:
  fixes acc v :: "'a::len word"
  shows "foldl (\<lambda>acc b. push_bit 8 acc OR ucast b) acc (rev (le_bytes_of n v))
    = push_bit (8 * n) acc OR take_bit (8 * n) v"
proof (induction n arbitrary: acc)
  case 0
  show ?case by (simp add: le_bytes_of_def)
next
  case (Suc n)
  show ?case
    unfolding le_bytes_of_Suc
    by (simp only: rev_append rev.simps append.simps foldl.simps Suc.IH byte_step)
qed

lemma decode_encode:
  fixes v :: "'a::len word"
  assumes "LENGTH('a) \<le> 8 * n"
  shows "decode order (encode order n v) = v"
proof -
  have "be_bytes (rev (le_bytes_of n v)) = take_bit (8 * n) v"
    by (simp add: be_bytes_def foldl_le_bytes_of)
  also from assms have "\<dots> = v"
    by (simp add: take_bit_word_eq_self)
  finally show ?thesis
    by (cases order) (simp_all add: decode_def encode_def)
qed

lemma length_encode: "length (encode order n v) = n"
  by (cases order) (simp_all add: encode_def le_bytes_of_def)

text \<open>
  The decoders are the expressions of \<open>encoding/binary\<close>, here for 4 bytes.
\<close>

lemma decode_LittleEndian_4:
  "(decode LittleEndian [b0, b1, b2, b3] :: uint32)
    = ucast b0 OR push_bit 8 (ucast b1) OR push_bit 16 (ucast b2) OR push_bit 24 (ucast b3)"
  by (simp add: decode_def be_bytes_def or.commute or.left_commute)

lemma decode_BigEndian_4:
  "(decode BigEndian [b0, b1, b2, b3] :: uint32)
    = ucast b3 OR push_bit 8 (ucast b2) OR push_bit 16 (ucast b1) OR push_bit 24 (ucast b0)"
  by (simp add: decode_def be_bytes_def or.commute or.left_commute)

lemma encode_LittleEndian_4:
  "encode LittleEndian 4 (v :: uint32)
    = [ucast v, ucast (drop_bit 8 v), ucast (drop_bit 16 v), ucast (drop_bit 24 v)]"
  by (simp add: encode_def le_bytes_of_def upt_rec)

text \<open>
  C8. For each byte order, each width \<open>p\<close> of 4 or 8 bytes and each value
  \<open>v < 2 ^ (8 * p)\<close>, \<open>WriteUint\<close> succeeds and appends \<open>p\<close> bytes to the stream, and
  \<open>ReadUintRaw\<close> with the same order and width on these bytes (whatever follows them)
  succeeds, returns \<open>v\<close> and leaves what follows.
\<close>

theorem WriteUint_ReadUintRaw_roundtrip:
  assumes "p = 4 \<or> p = 8" and "unat v < 2 ^ (8 * nat p)"
  shows "\<exists>bs. length bs = nat p
           \<and> WriteUint w order p v = Inr (w @ bs)
           \<and> ReadUintRaw (bs @ rest) order p = (Inr v, rest)"
proof -
  from assms(1) show ?thesis
  proof
    assume p: "p = 4"
    with assms(2) have lt: "unat v < 2 ^ 32" by simp
    then have "unat (ucast (ucast v :: uint32) :: uint64) = unat v"
      by (simp add: unsigned_ucast_eq unsigned_take_bit_eq take_bit_nat_eq_self)
    then have small: "ucast (ucast v :: uint32) = v"
      by (simp add: word_unat_eq_iff)
    have "ReadUintRaw (encode order 4 (ucast v :: uint32) @ rest) order 4 = (Inr v, rest)"
      by (simp add: ReadUintRaw_def binary_Read_def ReadFull_def length_encode decode_encode small)
    with p show ?thesis
      by (simp add: WriteUint_def binary_Write_def length_encode)
  next
    assume p: "p = 8"
    have "ReadUintRaw (encode order 8 v @ rest) order 8 = (Inr v, rest)"
      by (simp add: ReadUintRaw_def binary_Read_def ReadFull_def length_encode decode_encode)
    with p show ?thesis
      by (simp add: WriteUint_def binary_Write_def length_encode)
  qed
qed

theorem WriteUint_ReadUintRaw_roundtrip_witness:
  "WriteUint [] BigEndian 4 0x01020304 = Inr [1, 2, 3, 4]
   \<and> ReadUintRaw [1, 2, 3, 4] BigEndian 4 = (Inr 0x01020304, [])
   \<and> WriteUint [] LittleEndian 8 0x0102030405060708 = Inr [8, 7, 6, 5, 4, 3, 2, 1]
   \<and> ReadUintRaw [8, 7, 6, 5, 4, 3, 2, 1] LittleEndian 8 = (Inr 0x0102030405060708, [])"
proof -
  have a: "WriteUint [] BigEndian 4 0x01020304 = Inr [1, 2, 3, 4]"
    by (simp add: WriteUint_def binary_Write_def encode_def le_bytes_of_def upt_rec)
  have b: "WriteUint [] LittleEndian 8 0x0102030405060708 = Inr [8, 7, 6, 5, 4, 3, 2, 1]"
    by (simp add: WriteUint_def binary_Write_def encode_def le_bytes_of_def upt_rec)
  have c: "ReadUintRaw [1, 2, 3, 4] BigEndian 4 = (Inr 0x01020304, [])"
    using WriteUint_ReadUintRaw_roundtrip [of 4 "0x01020304" "[]" BigEndian "[]"] a by simp
  have d: "ReadUintRaw [8, 7, 6, 5, 4, 3, 2, 1] LittleEndian 8 = (Inr 0x0102030405060708, [])"
    using WriteUint_ReadUintRaw_roundtrip [of 8 "0x0102030405060708" "[]" LittleEndian "[]"] b
    by simp
  from a b c d show ?thesis by blast
qed

text \<open>
  C9. For a string \<open>s\<close> without a zero byte, \<open>ReadString\<close> on \<open>s\<close> followed by one
  zero byte returns \<open>s\<close> and no error, the terminator left out and the buffer read past
  it (what follows the zero byte stays in the buffer); on a buffer without a zero byte
  \<open>ReadString\<close> returns an error, \<open>io.EOF\<close>.
\<close>

theorem ReadString_roundtrip:
  "(0 \<notin> set s \<longrightarrow> ReadString (s @ [0]) = (Inr s, []) \<and> ReadString (s @ 0 # rest) = (Inr s, rest))
   \<and> (0 \<notin> set buf \<longrightarrow> ReadString buf = (Inl EOF, []))"
proof -
  have ok: "ReadString (s @ 0 # rest') = (Inr s, rest')" if "0 \<notin> set s" for rest'
  proof -
    from that have nz: "\<And>b. b \<in> set s \<Longrightarrow> b \<noteq> 0" by auto
    then have "takeWhile (\<lambda>b. b \<noteq> 0) (s @ 0 # rest') = s"
      and "dropWhile (\<lambda>b. b \<noteq> 0) (s @ 0 # rest') = 0 # rest'"
      by simp_all
    then show ?thesis
      by (simp add: ReadString_def Buffer_ReadString_def)
  qed
  have bad: "ReadString buf = (Inl EOF, [])" if "0 \<notin> set buf"
    using that by (simp add: ReadString_def Buffer_ReadString_def)
  from ok [of "[]"] ok [of rest] bad show ?thesis by simp
qed

theorem ReadString_roundtrip_witness:
  "ReadString [0x64, 0x6C, 0x76, 0] = (Inr [0x64, 0x6C, 0x76], [])
   \<and> ReadString [0x64, 0x6C, 0x76, 0, 0x21] = (Inr [0x64, 0x6C, 0x76], [0x21])
   \<and> ReadString [0x64, 0x6C, 0x76] = (Inl EOF, [])"
  using ReadString_roundtrip [of "[0x64, 0x6C, 0x76]" "[0x21]" "[0x64, 0x6C, 0x76]"]
  by simp

end
